theory Spec2Isabelle
  imports Main "HOL-Library.Signed_Division" "HOL-Library.Word"
begin

section \<open>Selective Repeat sender and receiver of \<^verbatim>\<open>src/sr.c\<close>\<close>

text \<open>
  The file \<^verbatim>\<open>src/sr.c\<close> holds two translation units; the claims are about the
  second one (the Selective Repeat module, lines 254 to 603), which is the one embedded
  here. The \<^verbatim>\<open>int\<close> fields of a frame are 32-bit words, and the arithmetic on values
  that come out of a frame (the checksum, the two window tests on \<^verbatim>\<open>packet.acknum\<close> and
  \<^verbatim>\<open>packet.seqnum\<close>) wraps around at \<open>2 ^ 31\<close> as the compiled code does. The module's
  own variables are \<^typ>\<open>int\<close>: the sequence numbers stay in \<open>[0, SEQSPACE)\<close> and the
  retry counters at or below \<open>MAX_RETRIES\<close>. C's \<^verbatim>\<open>%\<close> truncates towards zero; it is
  \<open>smod\<close> of \<^theory_text>\<open>HOL-Library.Signed_Division\<close>, not \<open>mod\<close>. A C array is a list whose length
  is the declared size; an access outside it is undefined behaviour in C and the failure
  \<open>OutOfBounds\<close> here. Trace output (\<^verbatim>\<open>printf\<close>) is not modelled, nor is the
  duration \<^verbatim>\<open>RTT\<close> every \<^verbatim>\<open>starttimer\<close> call passes.
\<close>

subsection \<open>Constants\<close>

definition WINDOWSIZE :: int where
  "WINDOWSIZE = 6"

definition SEQSPACE :: int where
  "SEQSPACE = 7"

definition NOTINUSE :: int where
  "NOTINUSE = - 1"

definition MAX_RETRIES :: int where
  "MAX_RETRIES = 10"

subsection \<open>Frames and messages\<close>

text \<open>
  Modelled from the spec: \<^verbatim>\<open>struct pkt\<close> and \<^verbatim>\<open>struct msg\<close> are declared in
  \<^verbatim>\<open>emulator.h\<close>, which is not among the sources. The spec's Frame is
  \<open>{seqnum, acknum, checksum, payload: 20 bytes}\<close> and its Message a 20 byte block; the
  code reads exactly these fields (\<^verbatim>\<open>packet.seqnum\<close>, \<^verbatim>\<open>packet.acknum\<close>,
  \<^verbatim>\<open>packet.checksum\<close>, \<^verbatim>\<open>packet.payload[i]\<close>, \<^verbatim>\<open>message.data[i]\<close>).
\<close>

record pkt =
  seqnum :: "32 word"
  acknum :: "32 word"
  checksum :: "32 word"
  payload :: string

record msg =
  data :: string

text \<open>
  \<^verbatim>\<open>(int)(packet.payload[i])\<close>: the value of a C \<^verbatim>\<open>char\<close>, read as a signed byte
  (the usual ABI where the emulator runs). Nothing below depends on the signedness
  beyond the conversion being one-to-one.
\<close>

definition char_to_int :: "char \<Rightarrow> int" where
  "char_to_int c = (if (of_char c :: int) < 128 then of_char c else of_char c - 256)"

text \<open>
  \<^verbatim>\<open>ComputeChecksum\<close> (lines 295 to 306): the loop over \<open>i = 0 .. 19\<close> is a fold. The
  accumulator is the C \<^verbatim>\<open>int checksum\<close>, a 32-bit word: every addition wraps.
\<close>

definition ComputeChecksum :: "pkt \<Rightarrow> 32 word" where
  "ComputeChecksum packet =
     fold (\<lambda>i checksum. checksum + word_of_int (char_to_int (payload packet ! i))) [0..<20]
       (seqnum packet + acknum packet)"

text \<open>\<^verbatim>\<open>IsCorrupted\<close> (lines 308 to 314).\<close>

definition IsCorrupted :: "pkt \<Rightarrow> bool" where
  "IsCorrupted packet = (if checksum packet = ComputeChecksum packet then False else True)"

text \<open>
  A frame field read into an \<^verbatim>\<open>int\<close> variable is its signed value \<open>sint\<close>. \<open>int32\<close>
  is the value a 32-bit \<^verbatim>\<open>int\<close> holds after an addition or subtraction whose exact
  result is \<open>x\<close> (two's complement wrap-around).
\<close>

definition int32 :: "int \<Rightarrow> int" where
  "int32 x = (x + 2147483648) mod 4294967296 - 2147483648"

subsection \<open>Failures, arrays and calls into the emulator\<close>

text \<open>
  \<open>Exit n\<close> is \<^verbatim>\<open>exit(n)\<close>: the process ends, there is no successor state.
  \<open>OutOfBounds\<close> is an array access outside the declared size.
\<close>

datatype failure = Exit int | OutOfBounds

definition in_bounds :: "'a list \<Rightarrow> int \<Rightarrow> bool" where
  "in_bounds xs i = (0 \<le> i \<and> i < int (length xs))"

text \<open>
  Modelled from the spec: the emulator's \<^verbatim>\<open>tolayer3\<close>, \<^verbatim>\<open>tolayer5\<close>,
  \<^verbatim>\<open>starttimer\<close> and \<^verbatim>\<open>stoptimer\<close> are not among the sources (the spec's channel,
  application and timer facility). Each entity's state carries the list of the calls it
  has made, in call order.
\<close>

datatype action = Tolayer3 pkt | Tolayer5 string | Starttimer | Stoptimer

subsection \<open>Sender (A)\<close>

text \<open>
  The statics \<^verbatim>\<open>base\<close>, \<^verbatim>\<open>next_seqnum\<close>, \<^verbatim>\<open>sender_buffer[WINDOWSIZE]\<close>,
  \<^verbatim>\<open>acked[WINDOWSIZE]\<close>, \<^verbatim>\<open>resend_count[SEQSPACE]\<close>; the emulator's counters
  \<^verbatim>\<open>window_full\<close> and \<^verbatim>\<open>packets_resent\<close>; and the calls made so far.
\<close>

record sender =
  base :: int
  next_seqnum :: int
  sender_buffer :: "pkt list"
  acked :: "bool list"
  resend_count :: "int list"
  window_full :: int
  packets_resent :: int
  A_calls :: "action list"

text \<open>
  \<^verbatim>\<open>A_init\<close> (lines 463 to 478) sets \<^verbatim>\<open>base\<close>, \<^verbatim>\<open>next_seqnum\<close> and \<^verbatim>\<open>acked\<close>;
  the other statics keep the zero a C static starts with.
\<close>

definition zero_pkt :: pkt where
  "zero_pkt = \<lparr>seqnum = 0, acknum = 0, checksum = 0, payload = replicate 20 (char_of (0::nat))\<rparr>"

definition A_init :: sender where
  "A_init =
     \<lparr>base = 0, next_seqnum = 0,
      sender_buffer = replicate (nat WINDOWSIZE) zero_pkt,
      acked = replicate (nat WINDOWSIZE) False,
      resend_count = replicate (nat SEQSPACE) 0,
      window_full = 0, packets_resent = 0, A_calls = []\<rparr>"

text \<open>\<^verbatim>\<open>A_output\<close> (lines 325 to 371).\<close>

text \<open>
  Building a frame, as \<^verbatim>\<open>A_output\<close> (lines 338 to 342) and \<^verbatim>\<open>B_input\<close> (lines 521 to
  526) do: the header fields are assigned from \<^verbatim>\<open>int\<close> variables, then the checksum is
  computed over them and the payload.
\<close>

definition make_pkt :: "int \<Rightarrow> int \<Rightarrow> string \<Rightarrow> pkt" where
  "make_pkt s a p =
     (let sendpkt = \<lparr>seqnum = word_of_int s, acknum = word_of_int a, checksum = 0, payload = p\<rparr>
      in sendpkt\<lparr>checksum := ComputeChecksum sendpkt\<rparr>)"

definition A_output :: "sender \<Rightarrow> msg \<Rightarrow> failure + sender" where
  "A_output s message =
     (if (next_seqnum s - base s + SEQSPACE) smod SEQSPACE < WINDOWSIZE then
        (let sendpkt = make_pkt (next_seqnum s) NOTINUSE (map (\<lambda>i. data message ! i) [0..<20]);
             buffer_index = next_seqnum s smod WINDOWSIZE
         in if in_bounds (sender_buffer s) buffer_index \<and> in_bounds (acked s) buffer_index then
              Inr (s\<lparr>sender_buffer := (sender_buffer s)[nat buffer_index := sendpkt],
                     acked := (acked s)[nat buffer_index := False],
                     A_calls := A_calls s @ [Tolayer3 sendpkt] @
                       (if base s = next_seqnum s then [Starttimer] else []),
                     next_seqnum := (next_seqnum s + 1) smod SEQSPACE\<rparr>)
            else Inl OutOfBounds)
      else Inr (s\<lparr>window_full := window_full s + 1\<rparr>))"

text \<open>
  The \<^verbatim>\<open>while (acked[base % WINDOWSIZE])\<close> loop of \<^verbatim>\<open>A_input\<close> (lines 408 to 425).
  Each round clears one mark, so the loop ends.
\<close>

function slide :: "sender \<Rightarrow> failure + sender" where
  "slide s =
     (if in_bounds (acked s) (base s smod WINDOWSIZE) then
        (if acked s ! nat (base s smod WINDOWSIZE) then
           (let base' = (base s + 1) smod SEQSPACE
            in slide (s\<lparr>acked := (acked s)[nat (base s smod WINDOWSIZE) := False],
                        base := base',
                        A_calls := A_calls s @
                          (if (base' - next_seqnum s + SEQSPACE) smod SEQSPACE < WINDOWSIZE
                           then [Stoptimer, Starttimer] else [Stoptimer])\<rparr>))
         else Inr s)
      else Inl OutOfBounds)"
  by pat_completeness auto

termination slide
proof (relation "measure (\<lambda>s. length (filter id (acked s)))")
  show "wf (measure (\<lambda>s. length (filter id (acked s))))"
    by simp
next
  fix s :: sender and x :: int
  assume b: "in_bounds (acked s) (base s smod WINDOWSIZE)"
    and m: "acked s ! nat (base s smod WINDOWSIZE)"
  have fewer: "length (filter id (xs[i := False])) < length (filter id xs)"
    if "i < length xs" and "xs ! i" for xs :: "bool list" and i
    using that
  proof (induction xs arbitrary: i)
    case Nil
    then show ?case by simp
  next
    case (Cons x xs)
    then show ?case by (cases i) auto
  qed
  from b have "nat (base s smod WINDOWSIZE) < length (acked s)"
    by (simp add: in_bounds_def nat_less_iff)
  from fewer [OF this m]
  show "(s\<lparr>acked := (acked s)[nat (base s smod WINDOWSIZE) := False], base := x,
            A_calls := A_calls s @
              (if (x - next_seqnum s + SEQSPACE) smod SEQSPACE < WINDOWSIZE
               then [Stoptimer, Starttimer] else [Stoptimer])\<rparr>, s)
        \<in> measure (\<lambda>s. length (filter id (acked s)))"
    by simp
qed

declare slide.simps [simp del]

text \<open>\<^verbatim>\<open>A_input\<close> (lines 376 to 433).\<close>

definition A_input :: "sender \<Rightarrow> pkt \<Rightarrow> failure + sender" where
  "A_input s packet =
     (if IsCorrupted packet then Inr s
      else
        (let acked_seqnum = sint (acknum packet) in
         if int32 (acked_seqnum - base s + SEQSPACE) smod SEQSPACE < WINDOWSIZE then
           (let buffer_index = acked_seqnum smod WINDOWSIZE in
            if in_bounds (acked s) buffer_index then
              (if acked s ! nat buffer_index then slide s
               else if in_bounds (resend_count s) acked_seqnum then
                 slide (s\<lparr>acked := (acked s)[nat buffer_index := True],
                          resend_count := (resend_count s)[nat acked_seqnum := 0]\<rparr>)
               else Inl OutOfBounds)
            else Inl OutOfBounds)
         else Inr s))"

text \<open>\<^verbatim>\<open>A_timerinterrupt\<close> (lines 437 to 459).\<close>

definition A_timerinterrupt :: "sender \<Rightarrow> failure + sender" where
  "A_timerinterrupt s =
     (let buffer_index = base s smod WINDOWSIZE in
      if in_bounds (sender_buffer s) buffer_index \<and> in_bounds (resend_count s) (base s) then
        (if resend_count s ! nat (base s) \<ge> MAX_RETRIES then Inl (Exit 1)
         else
           Inr (s\<lparr>A_calls := A_calls s @ [Tolayer3 (sender_buffer s ! nat buffer_index), Starttimer],
                  packets_resent := packets_resent s + 1,
                  resend_count := (resend_count s)[nat (base s) := resend_count s ! nat (base s) + 1]\<rparr>))
      else Inl OutOfBounds)"

text \<open>
  The emulator calls the three entry points one event at a time; a failure ends the run.
\<close>

datatype event = Submit msg | Ack pkt | Timeout

fun A_step :: "sender \<Rightarrow> event \<Rightarrow> failure + sender" where
  "A_step s (Submit m) = A_output s m"
| "A_step s (Ack p) = A_input s p"
| "A_step s Timeout = A_timerinterrupt s"

fun A_run :: "event list \<Rightarrow> sender \<Rightarrow> failure + sender" where
  "A_run [] s = Inr s"
| "A_run (e # es) s = (case A_step s e of Inl f \<Rightarrow> Inl f | Inr s' \<Rightarrow> A_run es s')"

subsection \<open>Receiver (B)\<close>

text \<open>
  The statics \<^verbatim>\<open>expected_seqnum\<close>, \<^verbatim>\<open>receiver_buffer[WINDOWSIZE]\<close>,
  \<^verbatim>\<open>received[WINDOWSIZE]\<close>, \<^verbatim>\<open>B_nextseqnum\<close>; the emulator's counter
  \<^verbatim>\<open>packets_received\<close>; and the calls made so far.
\<close>

record receiver =
  expected_seqnum :: int
  receiver_buffer :: "pkt list"
  received :: "bool list"
  B_nextseqnum :: int
  packets_received :: int
  B_calls :: "action list"

text \<open>\<^verbatim>\<open>B_init\<close> (lines 574 to 587); \<^verbatim>\<open>B_nextseqnum\<close> is initialised to 1 at line 490.\<close>

definition B_init :: receiver where
  "B_init =
     \<lparr>expected_seqnum = 0,
      receiver_buffer = replicate (nat WINDOWSIZE) zero_pkt,
      received = replicate (nat WINDOWSIZE) False,
      B_nextseqnum = 1, packets_received = 0, B_calls = []\<rparr>"

text \<open>
  The \<^verbatim>\<open>while (received[expected_seqnum % WINDOWSIZE])\<close> loop of \<^verbatim>\<open>B_input\<close>
  (lines 551 to 559).
\<close>

function deliver :: "receiver \<Rightarrow> failure + receiver" where
  "deliver r =
     (if in_bounds (received r) (expected_seqnum r smod WINDOWSIZE)
         \<and> in_bounds (receiver_buffer r) (expected_seqnum r smod WINDOWSIZE) then
        (if received r ! nat (expected_seqnum r smod WINDOWSIZE) then
           deliver (r\<lparr>B_calls := B_calls r @
                         [Tolayer5 (payload (receiver_buffer r ! nat (expected_seqnum r smod WINDOWSIZE)))],
                       received := (received r)[nat (expected_seqnum r smod WINDOWSIZE) := False],
                       expected_seqnum := (expected_seqnum r + 1) smod SEQSPACE\<rparr>)
         else Inr r)
      else Inl OutOfBounds)"
  by pat_completeness auto

termination deliver
proof (relation "measure (\<lambda>r. length (filter id (received r)))")
  show "wf (measure (\<lambda>r. length (filter id (received r))))"
    by simp
next
  fix r :: receiver
  assume b: "in_bounds (received r) (expected_seqnum r smod WINDOWSIZE)
      \<and> in_bounds (receiver_buffer r) (expected_seqnum r smod WINDOWSIZE)"
    and m: "received r ! nat (expected_seqnum r smod WINDOWSIZE)"
  have fewer: "length (filter id (xs[i := False])) < length (filter id xs)"
    if "i < length xs" and "xs ! i" for xs :: "bool list" and i
    using that
  proof (induction xs arbitrary: i)
    case Nil
    then show ?case by simp
  next
    case (Cons x xs)
    then show ?case by (cases i) auto
  qed
  from b have "nat (expected_seqnum r smod WINDOWSIZE) < length (received r)"
    by (simp add: in_bounds_def nat_less_iff)
  from fewer [OF this m]
  show "(r\<lparr>B_calls := B_calls r @
              [Tolayer5 (payload (receiver_buffer r ! nat (expected_seqnum r smod WINDOWSIZE)))],
            received := (received r)[nat (expected_seqnum r smod WINDOWSIZE) := False],
            expected_seqnum := (expected_seqnum r + 1) smod SEQSPACE\<rparr>, r)
        \<in> measure (\<lambda>r. length (filter id (received r)))"
    by simp
qed

declare deliver.simps [simp del]

text \<open>\<^verbatim>\<open>B_input\<close> (lines 493 to 570).\<close>

definition B_input :: "receiver \<Rightarrow> pkt \<Rightarrow> failure + receiver" where
  "B_input r packet =
     (if IsCorrupted packet then Inr r
      else
        (let packet_seqnum = sint (seqnum packet) in
         if int32 (packet_seqnum - expected_seqnum r + SEQSPACE) smod SEQSPACE < WINDOWSIZE then
           (let ackpkt = make_pkt (B_nextseqnum r) packet_seqnum (replicate 20 (CHR ''0''));
                r1 = r\<lparr>B_calls := B_calls r @ [Tolayer3 ackpkt],
                       B_nextseqnum := (B_nextseqnum r + 1) smod 2\<rparr>;
                buffer_index = packet_seqnum smod WINDOWSIZE
            in if in_bounds (received r1) buffer_index then
                 (if received r1 ! nat buffer_index then deliver r1
                  else if in_bounds (receiver_buffer r1) buffer_index then
                    deliver (r1\<lparr>receiver_buffer := (receiver_buffer r1)[nat buffer_index := packet],
                                received := (received r1)[nat buffer_index := True],
                                packets_received := packets_received r1 + 1\<rparr>)
                  else Inl OutOfBounds)
               else Inl OutOfBounds)
         else Inr r))"

fun B_run :: "pkt list \<Rightarrow> receiver \<Rightarrow> failure + receiver" where
  "B_run [] r = Inr r"
| "B_run (p # ps) r = (case B_input r p of Inl f \<Rightarrow> Inl f | Inr r' \<Rightarrow> B_run ps r')"

text \<open>What an entity handed to the channel and to the application, read off its calls.\<close>

fun sent :: "action list \<Rightarrow> pkt list" where
  "sent [] = []"
| "sent (Tolayer3 p # cs) = p # sent cs"
| "sent (c # cs) = sent cs"

fun delivered :: "action list \<Rightarrow> string list" where
  "delivered [] = []"
| "delivered (Tolayer5 d # cs) = d # delivered cs"
| "delivered (c # cs) = delivered cs"

subsection \<open>Invariants and concrete inputs\<close>

text \<open>
  The facts every state of the sender keeps, whatever the events: both sequence numbers
  are in \<open>[0, SEQSPACE)\<close> and the arrays have their declared sizes.
\<close>

definition A_inv :: "sender \<Rightarrow> bool" where
  "A_inv s =
     (0 \<le> base s \<and> base s < SEQSPACE \<and> 0 \<le> next_seqnum s \<and> next_seqnum s < SEQSPACE
      \<and> length (sender_buffer s) = nat WINDOWSIZE \<and> length (acked s) = nat WINDOWSIZE
      \<and> length (resend_count s) = nat SEQSPACE)"

text \<open>
  The receiver's invariant: a marked slot \<open>k\<close> holds a frame whose sequence number is in
  \<open>[0, SEQSPACE)\<close>, maps to slot \<open>k\<close> and lies in the receive window.
\<close>

definition B_inv :: "receiver \<Rightarrow> bool" where
  "B_inv r =
     (0 \<le> expected_seqnum r \<and> expected_seqnum r < SEQSPACE
      \<and> length (receiver_buffer r) = nat WINDOWSIZE \<and> length (received r) = nat WINDOWSIZE
      \<and> (\<forall>k < length (received r). received r ! k \<longrightarrow>
            0 \<le> sint (seqnum (receiver_buffer r ! k)) \<and> sint (seqnum (receiver_buffer r ! k)) < SEQSPACE
            \<and> sint (seqnum (receiver_buffer r ! k)) mod WINDOWSIZE = int k
            \<and> (sint (seqnum (receiver_buffer r ! k)) - expected_seqnum r) mod SEQSPACE < WINDOWSIZE))"

text \<open>
  A frame the receiver can be handed: the channel may have corrupted it in any way the
  checksum detects, or its sequence number is one of the spec's Frame,
  \<open>seqnum \<in> [0, SEQSPACE)\<close>.
\<close>

definition frame_ok :: "pkt \<Rightarrow> bool" where
  "frame_ok p = (IsCorrupted p \<or> (0 \<le> sint (seqnum p) \<and> sint (seqnum p) < SEQSPACE))"

text \<open>
  Concrete inputs for the scenarios below: the message of twenty equal bytes, the data
  frame \<^verbatim>\<open>A_output\<close> builds for it, and the acknowledgment frame \<^verbatim>\<open>B_input\<close> builds
  (ack-frame number \<open>b\<close>, acknowledged sequence number \<open>a\<close>, payload of twenty \<^verbatim>\<open>'0'\<close>).
\<close>

definition msg_of :: "char \<Rightarrow> msg" where
  "msg_of c = \<lparr>data = replicate 20 c\<rparr>"

definition frame_of :: "int \<Rightarrow> char \<Rightarrow> pkt" where
  "frame_of n c = make_pkt n NOTINUSE (replicate 20 c)"

definition ack_of :: "int \<Rightarrow> int \<Rightarrow> pkt" where
  "ack_of b a = make_pkt b a (replicate 20 (CHR ''0''))"

section \<open>Shared lemmas\<close>

lemma smod_nonneg:
  fixes a b :: int
  shows "0 \<le> a \<Longrightarrow> 0 < b \<Longrightarrow> a smod b = a mod b"
  by (simp add: smod_int_alt_def sgn_if)

lemma small_cases:
  fixes s :: int
  assumes "0 \<le> s" and "s < 7"
  shows "s = 0 \<or> s = 1 \<or> s = 2 \<or> s = 3 \<or> s = 4 \<or> s = 5 \<or> s = 6"
  using assms by arith

lemma int32_small:
  "- 2147483648 \<le> x \<Longrightarrow> x < 2147483648 \<Longrightarrow> int32 x = x"
  by (simp add: int32_def)

lemma sint_small:
  "- 2147483648 \<le> k \<Longrightarrow> k < 2147483648 \<Longrightarrow> sint (word_of_int k :: 32 word) = k"
  by (simp add: signed_of_int signed_take_bit_int_eq_self)

lemma make_pkt_sel [simp]:
  "seqnum (make_pkt s a p) = word_of_int s" "acknum (make_pkt s a p) = word_of_int a"
  "payload (make_pkt s a p) = p"
  by (simp_all add: make_pkt_def Let_def)

subsection \<open>The checksum as a sum\<close>

lemma char_to_int_range: "- 128 \<le> char_to_int c \<and> char_to_int c < 128"
proof -
  have "(of_char c :: int) = int (of_char c)"
    by (simp add: of_nat_of_char)
  then have "0 \<le> (of_char c :: int) \<and> (of_char c :: int) < 256"
    using nat_of_char_less_256 [of c] by simp
  then show ?thesis
    by (auto simp: char_to_int_def)
qed

lemma char_to_int_inj: "char_to_int c = char_to_int d \<Longrightarrow> c = d"
proof -
  have r: "0 \<le> (of_char x :: int) \<and> (of_char x :: int) < 256" for x
  proof -
    have "(of_char x :: int) = int (of_char x)"
      by (simp add: of_nat_of_char)
    then show ?thesis
      using nat_of_char_less_256 [of x] by simp
  qed
  assume "char_to_int c = char_to_int d"
  with r [of c] r [of d] have "(of_char c :: int) = of_char d"
    by (auto simp: char_to_int_def split: if_splits)
  then show ?thesis by simp
qed

text \<open>Two different bytes stay different as 32-bit summands.\<close>

lemma char_word_inj:
  assumes "(word_of_int (char_to_int c) :: 32 word) = word_of_int (char_to_int d)"
  shows "c = d"
proof -
  have "sint (word_of_int (char_to_int x) :: 32 word) = char_to_int x" for x
    using char_to_int_range [of x] by (intro sint_small) simp_all
  with assms have "char_to_int c = char_to_int d"
    by metis
  then show ?thesis
    by (rule char_to_int_inj)
qed

lemma fold_add_sum_list:
  fixes a :: "32 word"
  shows "fold (\<lambda>i c. c + f i) xs a = a + sum_list (map f xs)"
  by (induction xs arbitrary: a) (simp_all add: add.assoc)

lemma ComputeChecksum_sum:
  "ComputeChecksum p
     = seqnum p + acknum p + (\<Sum>i = 0..<20. word_of_int (char_to_int (payload p ! i)))"
  by (simp add: ComputeChecksum_def fold_add_sum_list sum_list_distinct_conv_sum_set)

lemma sum_change_one:
  fixes g h :: "nat \<Rightarrow> 32 word"
  assumes "j < n" and "\<And>i. i \<noteq> j \<Longrightarrow> g i = h i"
  shows "(\<Sum>i = 0..<n. g i) - g j = (\<Sum>i = 0..<n. h i) - h j"
proof -
  have "(\<Sum>i = 0..<n. g i) = g j + (\<Sum>i \<in> {0..<n} - {j}. g i)"
    using assms(1) by (simp add: sum.remove)
  moreover have "(\<Sum>i = 0..<n. h i) = h j + (\<Sum>i \<in> {0..<n} - {j}. h i)"
    using assms(1) by (simp add: sum.remove)
  moreover have "(\<Sum>i \<in> {0..<n} - {j}. g i) = (\<Sum>i \<in> {0..<n} - {j}. h i)"
    by (rule sum.cong) (simp_all add: assms(2))
  ultimately show ?thesis by simp
qed

lemma ComputeChecksum_payload_update:
  assumes "j < 20" and "length (payload p) = 20"
  shows "ComputeChecksum (p\<lparr>payload := (payload p)[j := b]\<rparr>)
         = ComputeChecksum p - word_of_int (char_to_int (payload p ! j)) + word_of_int (char_to_int b)"
proof -
  let ?g = "\<lambda>i. word_of_int (char_to_int ((payload p)[j := b] ! i)) :: 32 word"
  let ?h = "\<lambda>i. word_of_int (char_to_int (payload p ! i)) :: 32 word"
  have "(\<Sum>i = 0..<20. ?g i) - ?g j = (\<Sum>i = 0..<20. ?h i) - ?h j"
    by (rule sum_change_one [OF assms(1)]) simp
  moreover have "?g j = word_of_int (char_to_int b)"
    using assms by simp
  ultimately have "(\<Sum>i = 0..<20. ?g i)
      = (\<Sum>i = 0..<20. ?h i) - ?h j + word_of_int (char_to_int b)"
    by (simp add: algebra_simps)
  then show ?thesis
    by (simp add: ComputeChecksum_sum)
qed

lemma make_pkt_not_corrupted [simp]: "\<not> IsCorrupted (make_pkt s a p)"
  by (simp add: IsCorrupted_def make_pkt_def Let_def ComputeChecksum_sum)

section \<open>Frame integrity\<close>

text \<open>
  C9. For every frame \<open>F\<close> whose stored checksum equals the recomputed sum
  \<open>seqnum + acknum + payload[0] + ... + payload[19]\<close> (a 32-bit sum; the stored checksum
  is not part of it), changing one payload byte, the \<open>seqnum\<close> field or the \<open>acknum\<close>
  field to a different value makes \<open>IsCorrupted\<close> true. The frame's fields and the new
  values range over all 32-bit words, the bytes over all 256 values.
\<close>

theorem checksum_sensitivity:
  assumes "\<not> IsCorrupted F"
  shows "(j < 20 \<and> length (payload F) = 20 \<and> b \<noteq> payload F ! j
            \<longrightarrow> IsCorrupted (F\<lparr>payload := (payload F)[j := b]\<rparr>))
       \<and> (v \<noteq> seqnum F \<longrightarrow> IsCorrupted (F\<lparr>seqnum := v\<rparr>))
       \<and> (w \<noteq> acknum F \<longrightarrow> IsCorrupted (F\<lparr>acknum := w\<rparr>))
       \<and> checksum F
           = seqnum F + acknum F + (\<Sum>i = 0..<20. word_of_int (char_to_int (payload F ! i)))"
proof (intro conjI impI)
  from assms have same: "checksum F = ComputeChecksum F"
    by (simp add: IsCorrupted_def split: if_splits)
  then show ok: "checksum F
      = seqnum F + acknum F + (\<Sum>i = 0..<20. word_of_int (char_to_int (payload F ! i)))"
    by (simp add: ComputeChecksum_sum)
  {
    assume "j < 20 \<and> length (payload F) = 20 \<and> b \<noteq> payload F ! j"
    then have j: "j < 20" and l: "length (payload F) = 20" and d: "b \<noteq> payload F ! j"
      by simp_all
    from d have "(word_of_int (char_to_int b) :: 32 word) \<noteq> word_of_int (char_to_int (payload F ! j))"
      using char_word_inj by blast
    with same show "IsCorrupted (F\<lparr>payload := (payload F)[j := b]\<rparr>)"
      by (simp add: IsCorrupted_def ComputeChecksum_payload_update [OF j l])
  }
  {
    assume "v \<noteq> seqnum F"
    with ok show "IsCorrupted (F\<lparr>seqnum := v\<rparr>)"
      by (simp add: IsCorrupted_def ComputeChecksum_sum)
  }
  {
    assume "w \<noteq> acknum F"
    with ok show "IsCorrupted (F\<lparr>acknum := w\<rparr>)"
      by (simp add: IsCorrupted_def ComputeChecksum_sum)
  }
qed

text \<open>
  The witness, on a frame whose 32-bit checksum has wrapped around: sequence number
  \<open>2147483647\<close>, acknowledgment number 1 and twenty bytes \<^verbatim>\<open>'a'\<close> (97 each) sum to
  \<open>2147483648 + 1940\<close>, stored as the word \<open>2147485588\<close> (the \<^verbatim>\<open>int\<close> \<open>-2147481708\<close>).
\<close>

theorem checksum_sensitivity_witness:
  "\<not> IsCorrupted (make_pkt 2147483647 1 (replicate 20 (CHR ''a'')))
   \<and> IsCorrupted ((make_pkt 2147483647 1 (replicate 20 (CHR ''a'')))
        \<lparr>payload := (payload (make_pkt 2147483647 1 (replicate 20 (CHR ''a''))))[0 := CHR ''z'']\<rparr>)
   \<and> IsCorrupted ((make_pkt 2147483647 1 (replicate 20 (CHR ''a'')))\<lparr>seqnum := 999999\<rparr>)
   \<and> IsCorrupted ((make_pkt 2147483647 1 (replicate 20 (CHR ''a'')))\<lparr>acknum := 999999\<rparr>)
   \<and> checksum (make_pkt 2147483647 1 (replicate 20 (CHR ''a''))) = 2147485588
   \<and> sint (checksum (make_pkt 2147483647 1 (replicate 20 (CHR ''a'')))) = - 2147481708"
proof -
  let ?F = "make_pkt 2147483647 1 (replicate 20 (CHR ''a''))"
  have h: "\<not> IsCorrupted ?F"
    by simp
  have p: "(0::nat) < 20 \<and> length (payload ?F) = 20 \<and> CHR ''z'' \<noteq> payload ?F ! 0"
    by simp
  have v: "(999999 :: 32 word) \<noteq> seqnum ?F" "(999999 :: 32 word) \<noteq> acknum ?F"
    by simp_all
  have c: "checksum ?F = 2147485588" "sint (checksum ?F) = - 2147481708"
    by code_simp+
  from checksum_sensitivity [OF h, of 0 "CHR ''z''" 999999 999999] p v
  have "IsCorrupted (?F\<lparr>payload := (payload ?F)[0 := CHR ''z'']\<rparr>)"
    and "IsCorrupted (?F\<lparr>seqnum := 999999\<rparr>)"
    and "IsCorrupted (?F\<lparr>acknum := 999999\<rparr>)"
    by blast+
  with h c show ?thesis
    by (intro conjI)
qed

section \<open>Receiver window\<close>

lemma B_inv_init: "B_inv B_init"
  by (simp add: B_inv_def B_init_def WINDOWSIZE_def SEQSPACE_def)

lemma window_advance:
  fixes s e :: int
  assumes "0 \<le> s" "s < 7" "0 \<le> e" "e < 7" "s mod 6 \<noteq> e mod 6"
  shows "(s - (e + 1) mod 7) mod 7 < 6"
proof -
  from assms(5) have "s \<noteq> e" by auto
  with small_cases [OF assms(1,2)] small_cases [OF assms(3,4)] show ?thesis
    by auto
qed

text \<open>One round of the delivery loop keeps the invariant.\<close>

lemma B_inv_deliver_round:
  assumes inv: "B_inv r" and m: "received r ! nat (expected_seqnum r smod WINDOWSIZE)"
  shows "B_inv (r\<lparr>B_calls := cs,
                  received := (received r)[nat (expected_seqnum r smod WINDOWSIZE) := False],
                  expected_seqnum := (expected_seqnum r + 1) smod SEQSPACE\<rparr>)"
proof -
  let ?e = "expected_seqnum r"
  from inv have e: "0 \<le> ?e" "?e < 7"
    and len: "length (received r) = 6" "length (receiver_buffer r) = 6"
    by (simp_all add: B_inv_def SEQSPACE_def WINDOWSIZE_def)
  have slot: "?e smod 6 = ?e mod 6"
    using e by (simp add: smod_nonneg)
  have nxt: "(?e + 1) smod 7 = (?e + 1) mod 7"
    using e by (simp add: smod_nonneg)
  have "(sint (seqnum (receiver_buffer r ! k)) - (?e + 1) mod 7) mod 7 < 6"
    if k: "k < 6" "k \<noteq> nat (?e mod 6)" "received r ! k" for k
  proof -
    let ?s = "sint (seqnum (receiver_buffer r ! k))"
    from inv k len have s: "0 \<le> ?s" "?s < 7" "?s mod 6 = int k"
      by (simp_all add: B_inv_def SEQSPACE_def WINDOWSIZE_def)
    from k(2) s(3) have "?s mod 6 \<noteq> ?e mod 6"
      by auto
    with s e show ?thesis
      by (intro window_advance)
  qed
  moreover have "0 \<le> (?e + 1) mod 7" "(?e + 1) mod 7 < 7"
    by simp_all
  ultimately show ?thesis
    using inv len
    by (simp add: B_inv_def slot nxt SEQSPACE_def WINDOWSIZE_def nth_list_update)
qed

text \<open>The delivery loop returns, and keeps the invariant.\<close>

lemma deliver_inv:
  "B_inv r \<Longrightarrow> \<exists>r'. deliver r = Inr r' \<and> B_inv r'"
proof (induction r rule: deliver.induct)
  case (1 r)
  let ?i = "expected_seqnum r smod WINDOWSIZE"
  from "1.prems" have b: "in_bounds (received r) ?i \<and> in_bounds (receiver_buffer r) ?i"
    by (simp add: B_inv_def in_bounds_def smod_nonneg WINDOWSIZE_def)
  show ?case
  proof (cases "received r ! nat ?i")
    case True
    let ?t = "r\<lparr>B_calls := B_calls r @ [Tolayer5 (payload (receiver_buffer r ! nat ?i))],
                received := (received r)[nat ?i := False],
                expected_seqnum := (expected_seqnum r + 1) smod SEQSPACE\<rparr>"
    have "B_inv ?t"
      by (rule B_inv_deliver_round [OF "1.prems" True])
    from "1.IH" [OF b True this] obtain r' where "deliver ?t = Inr r'" "B_inv r'"
      by blast
    moreover have "deliver r = deliver ?t"
      using b True by (subst deliver.simps) simp
    ultimately show ?thesis by simp
  next
    case False
    with b "1.prems" show ?thesis
      by (subst deliver.simps) simp
  qed
qed

text \<open>
  For sequence numbers of \<open>[0, SEQSPACE)\<close> the window test of the code,
  \<^verbatim>\<open>(x - y + SEQSPACE) % SEQSPACE\<close> in 32-bit arithmetic, is the modular distance
  \<open>(x - y) mod SEQSPACE\<close>.
\<close>

lemma window_test:
  fixes x y :: int
  assumes "0 \<le> x" "x < SEQSPACE" "0 \<le> y" "y < SEQSPACE"
  shows "(x - y + SEQSPACE) smod SEQSPACE = (x - y) mod SEQSPACE"
    and "int32 (x - y + SEQSPACE) = x - y + SEQSPACE"
proof -
  from assms have "0 \<le> x - y + SEQSPACE"
    by (simp add: SEQSPACE_def)
  then have "(x - y + SEQSPACE) smod SEQSPACE = (x - y + SEQSPACE) mod SEQSPACE"
    by (simp add: smod_nonneg SEQSPACE_def)
  then show "(x - y + SEQSPACE) smod SEQSPACE = (x - y) mod SEQSPACE"
    by simp
  from assms show "int32 (x - y + SEQSPACE) = x - y + SEQSPACE"
    by (intro int32_small) (simp_all add: SEQSPACE_def)
qed

text \<open>Storing an uncorrupted frame of the window keeps the invariant.\<close>

lemma B_inv_store:
  assumes inv: "B_inv r" and s: "0 \<le> sint (seqnum p)" "sint (seqnum p) < SEQSPACE"
    and w: "int32 (sint (seqnum p) - expected_seqnum r + SEQSPACE) smod SEQSPACE < WINDOWSIZE"
  shows "B_inv (r\<lparr>B_calls := cs, B_nextseqnum := n,
                  receiver_buffer := (receiver_buffer r)[nat (sint (seqnum p) smod WINDOWSIZE) := p],
                  received := (received r)[nat (sint (seqnum p) smod WINDOWSIZE) := True],
                  packets_received := c\<rparr>)"
proof -
  let ?q = "sint (seqnum p)"
  from inv have e: "0 \<le> expected_seqnum r" "expected_seqnum r < SEQSPACE"
    by (simp_all add: B_inv_def)
  have slot: "?q smod 6 = ?q mod 6"
    using s by (simp add: smod_nonneg)
  from w window_test [OF s e] have "(?q - expected_seqnum r) mod 7 < 6"
    by (simp add: SEQSPACE_def WINDOWSIZE_def)
  moreover have "nat (?q mod 6) < 6" "int (nat (?q mod 6)) = ?q mod 6"
    by simp_all
  ultimately show ?thesis
    using inv s
    by (simp add: B_inv_def slot SEQSPACE_def WINDOWSIZE_def nth_list_update)
qed

lemma B_input_inv:
  assumes inv: "B_inv r" and ok: "frame_ok p"
  shows "\<exists>r'. B_input r p = Inr r' \<and> B_inv r'"
proof (cases "IsCorrupted p
    \<or> \<not> int32 (sint (seqnum p) - expected_seqnum r + SEQSPACE) smod SEQSPACE < WINDOWSIZE")
  case True
  with inv show ?thesis
    by (auto simp: B_input_def Let_def)
next
  case False
  with ok have s: "0 \<le> sint (seqnum p)" "sint (seqnum p) < SEQSPACE"
    and w: "int32 (sint (seqnum p) - expected_seqnum r + SEQSPACE) smod SEQSPACE < WINDOWSIZE"
    and c: "\<not> IsCorrupted p"
    by (auto simp: frame_ok_def)
  let ?i = "sint (seqnum p) smod WINDOWSIZE"
  let ?r1 = "r\<lparr>B_calls := B_calls r @
                  [Tolayer3 (make_pkt (B_nextseqnum r) (sint (seqnum p)) (replicate 20 (CHR ''0'')))],
                B_nextseqnum := (B_nextseqnum r + 1) smod 2\<rparr>"
  from inv have r1: "B_inv ?r1"
    by (simp add: B_inv_def)
  from inv s have b: "in_bounds (received r) ?i" "in_bounds (receiver_buffer r) ?i"
    by (simp_all add: B_inv_def in_bounds_def smod_nonneg WINDOWSIZE_def SEQSPACE_def)
  show ?thesis
  proof (cases "received r ! nat ?i")
    case True
    with c w b deliver_inv [OF r1] show ?thesis
      by (simp add: B_input_def Let_def)
  next
    case False
    have "B_inv (r\<lparr>B_calls := B_calls ?r1, B_nextseqnum := B_nextseqnum ?r1,
                  receiver_buffer := (receiver_buffer r)[nat ?i := p],
                  received := (received r)[nat ?i := True],
                  packets_received := packets_received r + 1\<rparr>)"
      by (rule B_inv_store [OF inv s w])
    from deliver_inv [OF this] False c w b show ?thesis
      by (simp add: B_input_def Let_def)
  qed
qed

lemma B_run_inv:
  "B_inv r \<Longrightarrow> \<forall>p \<in> set ps. frame_ok p \<Longrightarrow> \<exists>r'. B_run ps r = Inr r' \<and> B_inv r'"
proof (induction ps arbitrary: r)
  case Nil
  then show ?case by simp
next
  case (Cons p ps)
  from B_input_inv [OF Cons.prems(1)] Cons.prems(2) obtain r1
    where "B_input r p = Inr r1" "B_inv r1"
    by auto
  with Cons.IH [of r1] Cons.prems(2) show ?case
    by simp
qed

text \<open>
  C4 as stated (after any sequence of arriving frames, every slot whose \<^verbatim>\<open>received\<close>
  mark is set holds a sequence number of the current receive window) does not hold of the
  code: \<^verbatim>\<open>B_input\<close> never checks that \<^verbatim>\<open>packet.seqnum\<close> is a sequence number. A frame
  with an intact checksum and \<open>seqnum = 22\<close> arrives first: \<open>(22 - 0 + 7) % 7 = 1 < 6\<close>, so
  it is acknowledged and stored in slot \<open>22 % 6 = 4\<close>. Frames 0 and 1 follow and are
  delivered; \<^verbatim>\<open>expected_seqnum\<close> is 2, slot 4 is still marked, and its sequence number
  22 is at distance \<open>(22 - 2) mod 7 = 6\<close>, outside the window.
\<close>

theorem received_outside_window:
  "B_run [frame_of 22 (CHR ''x''), frame_of 0 (CHR ''a''), frame_of 1 (CHR ''b'')] B_init
     = Inr (projr (B_run [frame_of 22 (CHR ''x''), frame_of 0 (CHR ''a''), frame_of 1 (CHR ''b'')] B_init))
   \<and> \<not> IsCorrupted (frame_of 22 (CHR ''x''))
   \<and> expected_seqnum (projr (B_run [frame_of 22 (CHR ''x''), frame_of 0 (CHR ''a''),
                                     frame_of 1 (CHR ''b'')] B_init)) = 2
   \<and> received (projr (B_run [frame_of 22 (CHR ''x''), frame_of 0 (CHR ''a''),
                              frame_of 1 (CHR ''b'')] B_init)) ! 4
   \<and> sint (seqnum (receiver_buffer (projr (B_run [frame_of 22 (CHR ''x''), frame_of 0 (CHR ''a''),
                              frame_of 1 (CHR ''b'')] B_init)) ! 4)) = 22
   \<and> \<not> (sint (seqnum (receiver_buffer (projr (B_run [frame_of 22 (CHR ''x''), frame_of 0 (CHR ''a''),
                              frame_of 1 (CHR ''b'')] B_init)) ! 4))
          - expected_seqnum (projr (B_run [frame_of 22 (CHR ''x''), frame_of 0 (CHR ''a''),
                              frame_of 1 (CHR ''b'')] B_init))) mod SEQSPACE < WINDOWSIZE"
  by code_simp

text \<open>
  C4, amended. After any sequence of frames handed to \<^verbatim>\<open>B_input\<close>, each of which is
  either detected as corrupted or carries a sequence number of \<open>[0, SEQSPACE)\<close>, the
  receiver has returned from every call, and every slot whose \<^verbatim>\<open>received\<close> mark is set
  holds a frame whose sequence number lies in the current receive window
  \<open>[expected, expected + WINDOWSIZE)\<close> modulo \<open>SEQSPACE\<close>.
\<close>

theorem received_within_window:
  assumes "\<forall>p \<in> set ps. IsCorrupted p \<or> (0 \<le> sint (seqnum p) \<and> sint (seqnum p) < SEQSPACE)"
  shows "\<exists>r. B_run ps B_init = Inr r
           \<and> (\<forall>k < length (received r). received r ! k \<longrightarrow>
                 (sint (seqnum (receiver_buffer r ! k)) - expected_seqnum r) mod SEQSPACE < WINDOWSIZE)"
proof -
  from assms have "\<forall>p \<in> set ps. frame_ok p"
    by (simp add: frame_ok_def)
  from B_run_inv [OF B_inv_init this] show ?thesis
    by (auto simp: B_inv_def)
qed

text \<open>
  The witness: frames 0 to 3 arrive in order and are delivered; a frame whose sequence
  number the channel replaced by 999999 is detected and ignored; then frames 6 and 5
  arrive and are buffered (slots 0 and 5) while frame 4 is missing.
\<close>

theorem received_within_window_witness:
  "\<exists>r. B_run [frame_of 0 (CHR ''a''), frame_of 1 (CHR ''b''), frame_of 2 (CHR ''c''),
              frame_of 3 (CHR ''d''), (frame_of 4 (CHR ''e''))\<lparr>seqnum := 999999\<rparr>,
              frame_of 6 (CHR ''g''), frame_of 5 (CHR ''f'')] B_init = Inr r
      \<and> expected_seqnum r = 4
      \<and> received r = [True, False, False, False, False, True]
      \<and> map seqnum (receiver_buffer r) = [6, 1, 2, 3, 0, 5]
      \<and> (sint (seqnum (receiver_buffer r ! 0)) - expected_seqnum r) mod SEQSPACE < WINDOWSIZE
      \<and> (sint (seqnum (receiver_buffer r ! 5)) - expected_seqnum r) mod SEQSPACE < WINDOWSIZE"
proof -
  let ?ps = "[frame_of 0 (CHR ''a''), frame_of 1 (CHR ''b''), frame_of 2 (CHR ''c''),
              frame_of 3 (CHR ''d''), (frame_of 4 (CHR ''e''))\<lparr>seqnum := 999999\<rparr>,
              frame_of 6 (CHR ''g''), frame_of 5 (CHR ''f'')]"
  have h: "\<forall>p \<in> set ?ps. IsCorrupted p \<or> (0 \<le> sint (seqnum p) \<and> sint (seqnum p) < SEQSPACE)"
    by code_simp
  from received_within_window [OF h] obtain r where r: "B_run ?ps B_init = Inr r"
    and w: "\<forall>k < length (received r). received r ! k \<longrightarrow>
              (sint (seqnum (receiver_buffer r ! k)) - expected_seqnum r) mod SEQSPACE < WINDOWSIZE"
    by blast
  have v: "map_sum id (\<lambda>r. (expected_seqnum r, received r, map seqnum (receiver_buffer r)))
             (B_run ?ps B_init) = Inr (4, [True, False, False, False, False, True], [6, 1, 2, 3, 0, 5])"
    by code_simp
  from v r have e: "expected_seqnum r = 4"
    and m: "received r = [True, False, False, False, False, True]"
    and b: "map seqnum (receiver_buffer r) = [6, 1, 2, 3, 0, 5]"
    by simp_all
  from w m have w0: "(sint (seqnum (receiver_buffer r ! 0)) - expected_seqnum r) mod SEQSPACE < WINDOWSIZE"
    and w5: "(sint (seqnum (receiver_buffer r ! 5)) - expected_seqnum r) mod SEQSPACE < WINDOWSIZE"
    by simp_all
  show ?thesis
    by (rule exI [of _ r]) (intro conjI r e m b w0 w5)
qed

section \<open>Sender window\<close>

lemma A_inv_init: "A_inv A_init"
  by (simp add: A_inv_def A_init_def WINDOWSIZE_def SEQSPACE_def)

lemma succ_in_range:
  fixes b :: int
  shows "0 \<le> b \<Longrightarrow> 0 \<le> (b + 1) smod SEQSPACE \<and> (b + 1) smod SEQSPACE < SEQSPACE"
  by (simp add: smod_nonneg SEQSPACE_def)

lemma A_inv_output:
  assumes "A_inv s" and "A_output s m = Inr s'"
  shows "A_inv s'"
  using assms succ_in_range [of "next_seqnum s"]
  by (auto simp: A_inv_def A_output_def Let_def split: if_splits)

lemma A_inv_slide:
  "A_inv s \<Longrightarrow> slide s = Inr s' \<Longrightarrow> A_inv s'"
proof (induction s rule: slide.induct)
  case (1 s)
  show ?case
  proof (cases "in_bounds (acked s) (base s smod WINDOWSIZE) \<and> acked s ! nat (base s smod WINDOWSIZE)")
    case True
    let ?t = "s\<lparr>acked := (acked s)[nat (base s smod WINDOWSIZE) := False],
                base := (base s + 1) smod SEQSPACE,
                A_calls := A_calls s @
                  (if ((base s + 1) smod SEQSPACE - next_seqnum s + SEQSPACE) smod SEQSPACE < WINDOWSIZE
                   then [Stoptimer, Starttimer] else [Stoptimer])\<rparr>"
    from True "1.prems"(2) have run: "slide ?t = Inr s'"
      by (subst (asm) slide.simps) (simp add: Let_def)
    from "1.prems"(1) succ_in_range [of "base s"] have "A_inv ?t"
      by (simp add: A_inv_def)
    with "1.IH" [OF _ _ refl] True run show ?thesis
      by simp
  next
    case False
    with "1.prems" show ?thesis
      by (subst (asm) slide.simps) (auto split: if_splits)
  qed
qed

lemma A_inv_input:
  assumes "A_inv s" and "A_input s p = Inr s'"
  shows "A_inv s'"
proof -
  have upd: "A_inv (s\<lparr>acked := (acked s)[i := True], resend_count := (resend_count s)[j := 0]\<rparr>)" for i j
    using assms(1) by (simp add: A_inv_def)
  from assms show ?thesis
    by (auto simp: A_input_def Let_def split: if_splits dest: A_inv_slide A_inv_slide [OF upd])
qed

lemma A_inv_timerinterrupt:
  assumes "A_inv s" and "A_timerinterrupt s = Inr s'"
  shows "A_inv s'"
  using assms by (auto simp: A_inv_def A_timerinterrupt_def Let_def split: if_splits)

lemma A_inv_step: "A_inv s \<Longrightarrow> A_step s e = Inr s' \<Longrightarrow> A_inv s'"
  by (cases e) (auto dest: A_inv_output A_inv_input A_inv_timerinterrupt)

lemma A_inv_run: "A_inv s \<Longrightarrow> A_run es s = Inr s' \<Longrightarrow> A_inv s'"
proof (induction es arbitrary: s)
  case Nil
  then show ?case by simp
next
  case (Cons e es)
  then show ?case
    by (auto split: sum.splits dest: A_inv_step)
qed

lemma A_inv_reachable: "A_run es A_init = Inr s \<Longrightarrow> A_inv s"
  by (rule A_inv_run [OF A_inv_init])

lemma A_run_append:
  "A_run (xs @ ys) s = (case A_run xs s of Inl f \<Rightarrow> Inl f | Inr s' \<Rightarrow> A_run ys s')"
  by (induction xs arbitrary: s) (auto split: sum.splits)

lemma A_init_lists:
  "A_init = \<lparr>base = 0, next_seqnum = 0,
      sender_buffer = [zero_pkt, zero_pkt, zero_pkt, zero_pkt, zero_pkt, zero_pkt],
      acked = [False, False, False, False, False, False],
      resend_count = [0, 0, 0, 0, 0, 0, 0],
      window_full = 0, packets_resent = 0, A_calls = []\<rparr>"
  by (simp add: A_init_def WINDOWSIZE_def SEQSPACE_def eval_nat_numeral)

text \<open>
  C8. In every state the sender reaches, \<^verbatim>\<open>A_output\<close> builds, buffers and transmits a
  new frame exactly when \<open>(next_seqnum - base) mod SEQSPACE < WINDOWSIZE\<close>; otherwise it
  only increments \<^verbatim>\<open>window_full\<close>: nothing is sent or stored and the window state is
  unchanged. With \<open>WINDOWSIZE = 6\<close> and \<open>SEQSPACE = 7\<close>, six submissions in a row send
  frames numbered 0 to 5, a seventh is refused as window-full, and after the
  acknowledgment of frame 0 the next submission is sent as frame 6.
\<close>

theorem A_output_backpressure:
  assumes "A_run evs A_init = Inr s"
  shows "(if (next_seqnum s - base s) mod SEQSPACE < WINDOWSIZE
          then A_output s message =
            Inr (s\<lparr>sender_buffer := (sender_buffer s)[nat (next_seqnum s mod WINDOWSIZE) :=
                       make_pkt (next_seqnum s) NOTINUSE (map (\<lambda>i. data message ! i) [0..<20])],
                   acked := (acked s)[nat (next_seqnum s mod WINDOWSIZE) := False],
                   A_calls := A_calls s @
                     [Tolayer3 (make_pkt (next_seqnum s) NOTINUSE (map (\<lambda>i. data message ! i) [0..<20]))] @
                     (if base s = next_seqnum s then [Starttimer] else []),
                   next_seqnum := (next_seqnum s + 1) mod SEQSPACE\<rparr>)
          else A_output s message = Inr (s\<lparr>window_full := window_full s + 1\<rparr>))
       \<and> (\<exists>t. A_run [Submit m1, Submit m2, Submit m3, Submit m4, Submit m5, Submit m6, Submit m7] A_init = Inr t
             \<and> map seqnum (sent (A_calls t)) = [0, 1, 2, 3, 4, 5]
             \<and> map payload (sent (A_calls t))
                 = map (\<lambda>m. map (\<lambda>i. data m ! i) [0..<20]) [m1, m2, m3, m4, m5, m6]
             \<and> window_full t = 1
             \<and> (\<exists>u. A_run [Ack (ack_of 1 0), Submit m8] t = Inr u
                   \<and> map seqnum (sent (A_calls u)) = [0, 1, 2, 3, 4, 5, 6]
                   \<and> window_full u = 1))"
proof (intro conjI)
  from assms have inv: "A_inv s"
    by (rule A_inv_reachable)
  then have b: "0 \<le> base s" "base s < SEQSPACE" and n: "0 \<le> next_seqnum s" "next_seqnum s < SEQSPACE"
    by (simp_all add: A_inv_def)
  have t: "(next_seqnum s - base s + SEQSPACE) smod SEQSPACE = (next_seqnum s - base s) mod SEQSPACE"
    by (rule window_test [OF n b])
  have slot: "next_seqnum s smod WINDOWSIZE = next_seqnum s mod WINDOWSIZE"
    using n by (simp add: smod_nonneg WINDOWSIZE_def)
  have nxt: "(next_seqnum s + 1) smod SEQSPACE = (next_seqnum s + 1) mod SEQSPACE"
    using n by (simp add: smod_nonneg SEQSPACE_def)
  have bounds: "in_bounds (sender_buffer s) (next_seqnum s mod WINDOWSIZE)"
    "in_bounds (acked s) (next_seqnum s mod WINDOWSIZE)"
    using inv by (simp_all add: A_inv_def in_bounds_def WINDOWSIZE_def)
  show "if (next_seqnum s - base s) mod SEQSPACE < WINDOWSIZE
        then A_output s message =
            Inr (s\<lparr>sender_buffer := (sender_buffer s)[nat (next_seqnum s mod WINDOWSIZE) :=
                       make_pkt (next_seqnum s) NOTINUSE (map (\<lambda>i. data message ! i) [0..<20])],
                   acked := (acked s)[nat (next_seqnum s mod WINDOWSIZE) := False],
                   A_calls := A_calls s @
                     [Tolayer3 (make_pkt (next_seqnum s) NOTINUSE (map (\<lambda>i. data message ! i) [0..<20]))] @
                     (if base s = next_seqnum s then [Starttimer] else []),
                   next_seqnum := (next_seqnum s + 1) mod SEQSPACE\<rparr>)
        else A_output s message = Inr (s\<lparr>window_full := window_full s + 1\<rparr>)"
    unfolding A_output_def t slot nxt Let_def using bounds by simp
next
  show "\<exists>t. A_run [Submit m1, Submit m2, Submit m3, Submit m4, Submit m5, Submit m6, Submit m7] A_init = Inr t
             \<and> map seqnum (sent (A_calls t)) = [0, 1, 2, 3, 4, 5]
             \<and> map payload (sent (A_calls t))
                 = map (\<lambda>m. map (\<lambda>i. data m ! i) [0..<20]) [m1, m2, m3, m4, m5, m6]
             \<and> window_full t = 1
             \<and> (\<exists>u. A_run [Ack (ack_of 1 0), Submit m8] t = Inr u
                   \<and> map seqnum (sent (A_calls u)) = [0, 1, 2, 3, 4, 5, 6]
                   \<and> window_full u = 1)"
    by (simp add: A_output_def A_input_def slide.simps ack_of_def A_init_lists Let_def
        WINDOWSIZE_def SEQSPACE_def in_bounds_def smod_int_alt_def int32_def)
qed

text \<open>The witness: after six submissions the window is full and a seventh is refused.\<close>

theorem A_output_backpressure_witness:
  "\<exists>s. A_run (map (\<lambda>c. Submit (msg_of c)) ''abcdef'') A_init = Inr s
      \<and> base s = 0 \<and> next_seqnum s = 6
      \<and> A_output s (msg_of (CHR ''g'')) = Inr (s\<lparr>window_full := window_full s + 1\<rparr>)"
proof -
  define s where "s = projr (A_run (map (\<lambda>c. Submit (msg_of c)) ''abcdef'') A_init)"
  have r: "A_run (map (\<lambda>c. Submit (msg_of c)) ''abcdef'') A_init = Inr s"
    unfolding s_def by code_simp
  have v: "base s = 0" "next_seqnum s = 6"
    unfolding s_def by code_simp+
  from A_output_backpressure [OF r, of "msg_of (CHR ''g'')"] v
  have "A_output s (msg_of (CHR ''g'')) = Inr (s\<lparr>window_full := window_full s + 1\<rparr>)"
    by (simp add: SEQSPACE_def WINDOWSIZE_def)
  with r v show ?thesis
    by (intro exI [of _ s] conjI)
qed

section \<open>Timeouts\<close>

lemma timer_slots:
  assumes "A_inv s"
  shows "in_bounds (sender_buffer s) (base s smod WINDOWSIZE)" and "in_bounds (resend_count s) (base s)"
    and "base s smod WINDOWSIZE = base s mod WINDOWSIZE"
  using assms by (simp_all add: A_inv_def in_bounds_def smod_nonneg WINDOWSIZE_def SEQSPACE_def)

text \<open>
  C6. In every state the sender reaches in which the retry counter of the base sequence
  number has reached \<open>MAX_RETRIES\<close>, \<^verbatim>\<open>A_timerinterrupt\<close> ends the process with
  \<^verbatim>\<open>exit(1)\<close>: it returns no successor state, so nothing is retransmitted, and whatever
  events would follow, the run as a whole ends in that failure.
\<close>

theorem retry_exhaustion_fatal:
  assumes "A_run evs A_init = Inr s" and "MAX_RETRIES \<le> resend_count s ! nat (base s)"
  shows "A_timerinterrupt s = Inl (Exit 1) \<and> A_run (evs @ Timeout # rest) A_init = Inl (Exit 1)"
proof -
  from assms(1) have inv: "A_inv s"
    by (rule A_inv_reachable)
  from timer_slots(1,2) [OF inv] assms(2) have "A_timerinterrupt s = Inl (Exit 1)"
    by (simp add: A_timerinterrupt_def Let_def)
  with assms(1) show ?thesis
    by (simp add: A_run_append)
qed

text \<open>
  The witness: one frame is sent and never acknowledged; the tenth timeout brings its
  retry counter to 10, the eleventh ends the process.
\<close>

theorem retry_exhaustion_fatal_witness:
  "\<exists>s. A_run (Submit (msg_of (CHR ''a'')) # replicate 10 Timeout) A_init = Inr s
      \<and> base s = 0 \<and> resend_count s ! nat (base s) = 10 \<and> MAX_RETRIES = 10
      \<and> A_timerinterrupt s = Inl (Exit 1)
      \<and> A_run ((Submit (msg_of (CHR ''a'')) # replicate 10 Timeout) @ Timeout # [Submit (msg_of (CHR ''b''))])
            A_init = Inl (Exit 1)"
proof -
  define s where "s = projr (A_run (Submit (msg_of (CHR ''a'')) # replicate 10 Timeout) A_init)"
  have r: "A_run (Submit (msg_of (CHR ''a'')) # replicate 10 Timeout) A_init = Inr s"
    unfolding s_def by code_simp
  have v: "base s = 0" "resend_count s ! nat (base s) = 10"
    unfolding s_def by code_simp+
  have m: "MAX_RETRIES = 10"
    by (simp add: MAX_RETRIES_def)
  from v m have h: "MAX_RETRIES \<le> resend_count s ! nat (base s)"
    by simp
  from retry_exhaustion_fatal [OF r h, of "[Submit (msg_of (CHR ''b''))]"]
  have "A_timerinterrupt s = Inl (Exit 1)"
    and "A_run ((Submit (msg_of (CHR ''a'')) # replicate 10 Timeout) @ Timeout # [Submit (msg_of (CHR ''b''))])
            A_init = Inl (Exit 1)"
    by blast+
  with r v m show ?thesis
    by (intro exI [of _ s] conjI)
qed

text \<open>
  C10. In every state the sender reaches in which the retry counter of the base sequence
  number is below \<open>MAX_RETRIES\<close>, \<^verbatim>\<open>A_timerinterrupt\<close> returns a state with the same
  \<^verbatim>\<open>base\<close>, \<^verbatim>\<open>next_seqnum\<close>, buffered frames and \<^verbatim>\<open>acked\<close> flags; of the sender's
  own variables only \<^verbatim>\<open>resend_count[base]\<close> changes, by one. Besides that it hands the
  frame of slot \<open>base mod WINDOWSIZE\<close> to the channel, starts the timer and counts the
  retransmission in the emulator's \<^verbatim>\<open>packets_resent\<close>.
\<close>

theorem A_timerinterrupt_frame:
  assumes "A_run evs A_init = Inr s" and "resend_count s ! nat (base s) < MAX_RETRIES"
  shows "A_timerinterrupt s =
           Inr (s\<lparr>A_calls := A_calls s @
                     [Tolayer3 (sender_buffer s ! nat (base s mod WINDOWSIZE)), Starttimer],
                  packets_resent := packets_resent s + 1,
                  resend_count := (resend_count s)[nat (base s) := resend_count s ! nat (base s) + 1]\<rparr>)
         \<and> 0 \<le> base s \<and> nat (base s) < length (resend_count s)"
proof -
  from assms(1) have inv: "A_inv s"
    by (rule A_inv_reachable)
  from inv have "0 \<le> base s" "nat (base s) < length (resend_count s)"
    by (simp_all add: A_inv_def nat_less_iff)
  with timer_slots [OF inv] assms(2) show ?thesis
    by (simp add: A_timerinterrupt_def Let_def)
qed

text \<open>
  The witness: frames 0 and 1 are sent, then the timer fires; only the retry counter of
  sequence number 0 has changed among the sender's variables.
\<close>

theorem A_timerinterrupt_frame_witness:
  "\<exists>s s'. A_run [Submit (msg_of (CHR ''a'')), Submit (msg_of (CHR ''b''))] A_init = Inr s
      \<and> resend_count s ! nat (base s) < MAX_RETRIES
      \<and> A_timerinterrupt s = Inr s'
      \<and> base s' = base s \<and> next_seqnum s' = next_seqnum s
      \<and> sender_buffer s' = sender_buffer s \<and> acked s' = acked s
      \<and> resend_count s = [0, 0, 0, 0, 0, 0, 0] \<and> resend_count s' = [1, 0, 0, 0, 0, 0, 0]
      \<and> A_calls s' = A_calls s @ [Tolayer3 (frame_of 0 (CHR ''a'')), Starttimer]"
proof -
  define s where "s = projr (A_run [Submit (msg_of (CHR ''a'')), Submit (msg_of (CHR ''b''))] A_init)"
  have r: "A_run [Submit (msg_of (CHR ''a'')), Submit (msg_of (CHR ''b''))] A_init = Inr s"
    unfolding s_def by code_simp
  have v: "base s = 0" "resend_count s = [0, 0, 0, 0, 0, 0, 0]"
    "sender_buffer s ! 0 = frame_of 0 (CHR ''a'')"
    unfolding s_def by code_simp+
  from v have h: "resend_count s ! nat (base s) < MAX_RETRIES"
    by (simp add: MAX_RETRIES_def)
  define s' where "s' = s\<lparr>A_calls := A_calls s @
                     [Tolayer3 (sender_buffer s ! nat (base s mod WINDOWSIZE)), Starttimer],
                  packets_resent := packets_resent s + 1,
                  resend_count := (resend_count s)[nat (base s) := resend_count s ! nat (base s) + 1]\<rparr>"
  from A_timerinterrupt_frame [OF r h] have t: "A_timerinterrupt s = Inr s'"
    unfolding s'_def by blast
  have "base s' = base s" "next_seqnum s' = next_seqnum s"
    "sender_buffer s' = sender_buffer s" "acked s' = acked s"
    "resend_count s' = [1, 0, 0, 0, 0, 0, 0]"
    "A_calls s' = A_calls s @ [Tolayer3 (frame_of 0 (CHR ''a'')), Starttimer]"
    using v by (simp_all add: s'_def WINDOWSIZE_def)
  with r h t v(2) show ?thesis
    by (intro exI [of _ s] exI [of _ s'] conjI)
qed

section \<open>Acknowledgments that change nothing\<close>

lemma slide_unmarked:
  "slide s = Inr s' \<Longrightarrow> \<not> acked s' ! nat (base s' smod WINDOWSIZE)"
proof (induction s rule: slide.induct)
  case (1 s)
  show ?case
  proof (cases "in_bounds (acked s) (base s smod WINDOWSIZE) \<and> acked s ! nat (base s smod WINDOWSIZE)")
    case True
    let ?t = "s\<lparr>acked := (acked s)[nat (base s smod WINDOWSIZE) := False],
                base := (base s + 1) smod SEQSPACE,
                A_calls := A_calls s @
                  (if ((base s + 1) smod SEQSPACE - next_seqnum s + SEQSPACE) smod SEQSPACE < WINDOWSIZE
                   then [Stoptimer, Starttimer] else [Stoptimer])\<rparr>"
    from True "1.prems" have "slide ?t = Inr s'"
      by (subst (asm) slide.simps) (simp add: Let_def)
    with "1.IH" [OF _ _ refl] True show ?thesis
      by simp
  next
    case False
    with "1.prems" show ?thesis
      by (subst (asm) slide.simps) (auto split: if_splits)
  qed
qed

lemma step_unmarked:
  assumes inv: "A_inv s" and u: "\<not> acked s ! nat (base s smod WINDOWSIZE)"
    and st: "A_step s e = Inr s'"
  shows "\<not> acked s' ! nat (base s' smod WINDOWSIZE)"
proof (cases e)
  case (Submit m)
  from inv have len: "nat (base s smod WINDOWSIZE) < length (acked s)"
    by (simp add: A_inv_def smod_nonneg WINDOWSIZE_def nat_less_iff)
  have "\<not> (acked s)[i := False] ! nat (base s smod WINDOWSIZE)" for i
    using u len by (cases "i = nat (base s smod WINDOWSIZE)") simp_all
  with u st Submit show ?thesis
    by (auto simp: A_output_def Let_def split: if_splits)
next
  case (Ack p)
  with u st show ?thesis
    by (auto simp: A_input_def Let_def split: if_splits dest: slide_unmarked)
next
  case Timeout
  with u st show ?thesis
    by (auto simp: A_timerinterrupt_def Let_def split: if_splits)
qed

lemma run_unmarked:
  "A_inv s \<Longrightarrow> \<not> acked s ! nat (base s smod WINDOWSIZE) \<Longrightarrow> A_run es s = Inr s'
     \<Longrightarrow> \<not> acked s' ! nat (base s' smod WINDOWSIZE)"
proof (induction es arbitrary: s)
  case Nil
  then show ?case by simp
next
  case (Cons e es)
  from Cons.prems(3) obtain s1 where s1: "A_step s e = Inr s1" and rest: "A_run es s1 = Inr s'"
    by (auto split: sum.splits)
  from Cons.IH [OF A_inv_step [OF Cons.prems(1) s1] step_unmarked [OF Cons.prems(1,2) s1] rest]
  show ?case .
qed

lemma reachable_unmarked:
  assumes "A_run es A_init = Inr s"
  shows "\<not> acked s ! nat (base s smod WINDOWSIZE)"
proof -
  have "\<not> acked A_init ! nat (base A_init smod WINDOWSIZE)"
    by (simp add: A_init_lists)
  from run_unmarked [OF A_inv_init this assms] show ?thesis .
qed

text \<open>
  In every state the sender reaches, \<^verbatim>\<open>A_input\<close> returns the state unchanged, with no
  call to the channel or the timer, when the acknowledgment is corrupted, when its
  \<open>acknum\<close> (a sequence number of \<open>[0, SEQSPACE)\<close>) is at modular distance
  \<open>WINDOWSIZE\<close> or more from \<^verbatim>\<open>base\<close>, and when the slot of its \<open>acknum\<close> is already
  marked acknowledged.
\<close>

theorem A_input_no_change:
  assumes "A_run evs A_init = Inr s"
  shows "(IsCorrupted p \<longrightarrow> A_input s p = Inr s)
       \<and> (0 \<le> sint (acknum p) \<and> sint (acknum p) < SEQSPACE
            \<and> \<not> (sint (acknum p) - base s) mod SEQSPACE < WINDOWSIZE \<longrightarrow> A_input s p = Inr s)
       \<and> (0 \<le> sint (acknum p) \<and> sint (acknum p) < SEQSPACE
            \<and> acked s ! nat (sint (acknum p) mod WINDOWSIZE) \<longrightarrow> A_input s p = Inr s)"
proof (intro conjI impI)
  let ?a = "sint (acknum p)"
  from assms have inv: "A_inv s"
    by (rule A_inv_reachable)
  then have b: "0 \<le> base s" "base s < SEQSPACE"
    by (simp_all add: A_inv_def)
  have still: "slide s = Inr s"
    using reachable_unmarked [OF assms] inv
    by (subst slide.simps) (simp add: A_inv_def in_bounds_def smod_nonneg WINDOWSIZE_def)
  show "A_input s p = Inr s" if "IsCorrupted p"
    using that by (simp add: A_input_def)
  show "A_input s p = Inr s"
    if "0 \<le> ?a \<and> ?a < SEQSPACE \<and> \<not> (?a - base s) mod SEQSPACE < WINDOWSIZE"
  proof -
    from that have a: "0 \<le> ?a" "?a < SEQSPACE"
      by simp_all
    from that window_test [OF a b] show ?thesis
      by (simp add: A_input_def Let_def)
  qed
  show "A_input s p = Inr s"
    if "0 \<le> ?a \<and> ?a < SEQSPACE \<and> acked s ! nat (?a mod WINDOWSIZE)"
  proof -
    from that have slot: "?a smod WINDOWSIZE = ?a mod WINDOWSIZE"
      by (simp add: smod_nonneg WINDOWSIZE_def)
    from inv have "in_bounds (acked s) (?a mod WINDOWSIZE)"
      by (simp add: A_inv_def in_bounds_def WINDOWSIZE_def)
    with that still show ?thesis
      by (simp add: A_input_def Let_def slot)
  qed
qed

text \<open>
  The witness: frames 0, 1 and 2 are outstanding and frame 1 is acknowledged. A corrupted
  acknowledgment, an acknowledgment of 6 (distance 6 from base 0) and a second
  acknowledgment of 1 each leave the state as it is.
\<close>

theorem A_input_no_change_witness:
  "\<exists>s. A_run [Submit (msg_of (CHR ''a'')), Submit (msg_of (CHR ''b'')), Submit (msg_of (CHR ''c'')),
              Ack (ack_of 1 1)] A_init = Inr s
      \<and> base s = 0 \<and> acked s = [False, True, False, False, False, False]
      \<and> IsCorrupted ((ack_of 0 0)\<lparr>acknum := 999999\<rparr>)
      \<and> A_input s ((ack_of 0 0)\<lparr>acknum := 999999\<rparr>) = Inr s
      \<and> A_input s (ack_of 0 6) = Inr s
      \<and> A_input s (ack_of 1 1) = Inr s"
proof -
  define s where "s = projr (A_run [Submit (msg_of (CHR ''a'')), Submit (msg_of (CHR ''b'')),
                                    Submit (msg_of (CHR ''c'')), Ack (ack_of 1 1)] A_init)"
  have r: "A_run [Submit (msg_of (CHR ''a'')), Submit (msg_of (CHR ''b'')), Submit (msg_of (CHR ''c'')),
                  Ack (ack_of 1 1)] A_init = Inr s"
    unfolding s_def by code_simp
  have v: "base s = 0" "acked s = [False, True, False, False, False, False]"
    unfolding s_def by code_simp+
  have c: "IsCorrupted ((ack_of 0 0)\<lparr>acknum := 999999\<rparr>)"
    by code_simp
  have h6: "0 \<le> sint (acknum (ack_of 0 6)) \<and> sint (acknum (ack_of 0 6)) < SEQSPACE
      \<and> \<not> (sint (acknum (ack_of 0 6)) - base s) mod SEQSPACE < WINDOWSIZE"
    unfolding s_def by code_simp
  have h1: "0 \<le> sint (acknum (ack_of 1 1)) \<and> sint (acknum (ack_of 1 1)) < SEQSPACE
      \<and> acked s ! nat (sint (acknum (ack_of 1 1)) mod WINDOWSIZE)"
    unfolding s_def by code_simp
  from A_input_no_change [OF r, of "(ack_of 0 0)\<lparr>acknum := 999999\<rparr>"] c
  have 1: "A_input s ((ack_of 0 0)\<lparr>acknum := 999999\<rparr>) = Inr s"
    by blast
  from A_input_no_change [OF r, of "ack_of 0 6"] h6
  have 2: "A_input s (ack_of 0 6) = Inr s"
    by blast
  from A_input_no_change [OF r, of "ack_of 1 1"] h1
  have 3: "A_input s (ack_of 1 1) = Inr s"
    by blast
  from r v c 1 2 3 show ?thesis
    by (intro exI [of _ s] conjI)
qed

text \<open>
  In every state the sender reaches, \<^verbatim>\<open>base\<close> and \<^verbatim>\<open>next_seqnum\<close> are sequence numbers
  of \<open>[0, SEQSPACE)\<close>, so the window size the sender computes,
  \<open>(next_seqnum - base) mod SEQSPACE\<close>, is at most \<open>WINDOWSIZE\<close>; and \<^verbatim>\<open>A_output\<close> and
  \<^verbatim>\<open>A_timerinterrupt\<close> never index an array outside its bounds there.
\<close>

theorem window_size_bound:
  assumes "A_run evs A_init = Inr s"
  shows "0 \<le> base s \<and> base s < SEQSPACE \<and> 0 \<le> next_seqnum s \<and> next_seqnum s < SEQSPACE
       \<and> 0 \<le> (next_seqnum s - base s) mod SEQSPACE
       \<and> (next_seqnum s - base s) mod SEQSPACE \<le> WINDOWSIZE
       \<and> A_output s m \<noteq> Inl OutOfBounds \<and> A_timerinterrupt s \<noteq> Inl OutOfBounds"
proof -
  from assms have inv: "A_inv s"
    by (rule A_inv_reachable)
  have "(next_seqnum s - base s) mod 7 < 7"
    by simp
  then have "(next_seqnum s - base s) mod SEQSPACE \<le> WINDOWSIZE"
    by (simp add: SEQSPACE_def WINDOWSIZE_def)
  moreover have "0 \<le> (next_seqnum s - base s) mod SEQSPACE"
    by (simp add: SEQSPACE_def)
  moreover from inv have "A_output s m \<noteq> Inl OutOfBounds"
    by (simp add: A_output_def Let_def A_inv_def in_bounds_def smod_nonneg WINDOWSIZE_def)
  moreover from timer_slots(1,2) [OF inv] have "A_timerinterrupt s \<noteq> Inl OutOfBounds"
    by (simp add: A_timerinterrupt_def Let_def)
  ultimately show ?thesis
    using inv by (simp add: A_inv_def)
qed

theorem window_size_bound_witness:
  "\<exists>s. A_run (map (\<lambda>c. Submit (msg_of c)) ''abcdef'') A_init = Inr s
      \<and> base s = 0 \<and> next_seqnum s = 6
      \<and> (next_seqnum s - base s) mod SEQSPACE \<le> WINDOWSIZE
      \<and> A_timerinterrupt s \<noteq> Inl OutOfBounds"
proof -
  define s where "s = projr (A_run (map (\<lambda>c. Submit (msg_of c)) ''abcdef'') A_init)"
  have r: "A_run (map (\<lambda>c. Submit (msg_of c)) ''abcdef'') A_init = Inr s"
    unfolding s_def by code_simp
  have v: "base s = 0" "next_seqnum s = 6"
    unfolding s_def by code_simp+
  from window_size_bound [OF r]
  have "(next_seqnum s - base s) mod SEQSPACE \<le> WINDOWSIZE" "A_timerinterrupt s \<noteq> Inl OutOfBounds"
    by blast+
  with r v show ?thesis
    by (intro exI [of _ s] conjI)
qed

section \<open>Runs on which the code departs from the specification\<close>

text \<open>
  Each theorem of this section evaluates the code on one concrete run. Frames and
  acknowledgments are the ones the two entities build themselves: \<open>frame_of n c\<close> is what
  \<^verbatim>\<open>A_output\<close> hands to the channel for the message \<open>msg_of c\<close> under sequence number
  \<open>n\<close>, and \<open>ack_of b a\<close> is what \<^verbatim>\<open>B_input\<close> answers to a frame numbered \<open>a\<close>.
\<close>

text \<open>
  C1 (in-order delivery) does not hold of the code. Both entities index their buffers by
  \<^verbatim>\<open>seqnum % WINDOWSIZE\<close>, and with \<open>SEQSPACE = 7\<close>, \<open>WINDOWSIZE = 6\<close> the sequence
  numbers 6 and 0 share slot 0 while both lie in one window. The run: eight messages
  \<open>a .. h\<close> are submitted, the first six are delivered and acknowledged, then \<open>g\<close> is sent
  as frame 6 and \<open>h\<close> as frame 0. The channel loses frame 6, so frame 0 arrives first: it is
  inside the receive window \<open>{6, 0, 1, 2, 3, 4}\<close>, is acknowledged and stored in slot 0,
  and the delivery loop, looking at slot \<open>6 % 6 = 0\<close>, delivers \<open>h\<close> in the place of \<open>g\<close>.
  Every arrival was inside the receive window, and the payloads delivered are
  \<open>a b c d e f h\<close>. A retransmitted frame 6 is then outside the window \<open>{0, .., 5}\<close> and
  is dropped without acknowledgment.
\<close>

theorem delivery_skips_a_message:
  "map_sum id (\<lambda>s. sent (A_calls s))
     (A_run (map (\<lambda>c. Submit (msg_of c)) ''abcdef''
             @ [Ack (ack_of 1 0), Ack (ack_of 0 1), Ack (ack_of 1 2),
                Ack (ack_of 0 3), Ack (ack_of 1 4), Ack (ack_of 0 5)]
             @ [Submit (msg_of (CHR ''g'')), Submit (msg_of (CHR ''h''))]) A_init)
   = Inr [frame_of 0 (CHR ''a''), frame_of 1 (CHR ''b''), frame_of 2 (CHR ''c''),
          frame_of 3 (CHR ''d''), frame_of 4 (CHR ''e''), frame_of 5 (CHR ''f''),
          frame_of 6 (CHR ''g''), frame_of 0 (CHR ''h'')]
   \<and> map_sum id (\<lambda>r. (sent (B_calls r), expected_seqnum r))
       (B_run [frame_of 0 (CHR ''a''), frame_of 1 (CHR ''b''), frame_of 2 (CHR ''c''),
               frame_of 3 (CHR ''d''), frame_of 4 (CHR ''e''), frame_of 5 (CHR ''f'')] B_init)
     = Inr ([ack_of 1 0, ack_of 0 1, ack_of 1 2, ack_of 0 3, ack_of 1 4, ack_of 0 5], 6)
   \<and> map_sum id (\<lambda>r. (map acknum (sent (B_calls r)), delivered (B_calls r), expected_seqnum r))
       (B_run [frame_of 0 (CHR ''a''), frame_of 1 (CHR ''b''), frame_of 2 (CHR ''c''),
               frame_of 3 (CHR ''d''), frame_of 4 (CHR ''e''), frame_of 5 (CHR ''f''),
               frame_of 0 (CHR ''h'')] B_init)
     = Inr ([0, 1, 2, 3, 4, 5, 0],
            map (replicate 20) ''abcdefh'', 0)
   \<and> map_sum id (\<lambda>r. (map acknum (sent (B_calls r)), delivered (B_calls r), expected_seqnum r))
       (B_run [frame_of 0 (CHR ''a''), frame_of 1 (CHR ''b''), frame_of 2 (CHR ''c''),
               frame_of 3 (CHR ''d''), frame_of 4 (CHR ''e''), frame_of 5 (CHR ''f''),
               frame_of 0 (CHR ''h''), frame_of 6 (CHR ''g'')] B_init)
     = Inr ([0, 1, 2, 3, 4, 5, 0],
            map (replicate 20) ''abcdefh'', 0)"
  by code_simp

text \<open>
  C2 (timer after the slide) does not hold of the code. The test inside the loop,
  \<^verbatim>\<open>(base - next_seqnum + SEQSPACE) % SEQSPACE < WINDOWSIZE\<close>, is true when
  \<^verbatim>\<open>base == next_seqnum\<close> and false exactly when one frame is outstanding. First run: one
  frame is sent and acknowledged; nothing is outstanding (\<open>base = next_seqnum = 1\<close>) and
  the last timer call is \<^verbatim>\<open>starttimer\<close>. Second run: two frames are sent and the first is
  acknowledged; frame 1 is outstanding and the last timer call is \<^verbatim>\<open>stoptimer\<close>.
\<close>

theorem timer_after_slide_inverted:
  "map_sum id (\<lambda>s. (base s, next_seqnum s, acked s, A_calls s))
     (A_run [Submit (msg_of (CHR ''a'')), Ack (ack_of 1 0)] A_init)
   = Inr (1, 1, [False, False, False, False, False, False],
          [Tolayer3 (frame_of 0 (CHR ''a'')), Starttimer, Stoptimer, Starttimer])
   \<and> map_sum id (\<lambda>s. (base s, next_seqnum s, acked s, A_calls s))
       (A_run [Submit (msg_of (CHR ''a'')), Submit (msg_of (CHR ''b'')), Ack (ack_of 1 0)] A_init)
     = Inr (1, 2, [False, False, False, False, False, False],
            [Tolayer3 (frame_of 0 (CHR ''a'')), Starttimer, Tolayer3 (frame_of 1 (CHR ''b'')),
             Stoptimer])"
  by code_simp

text \<open>
  C3 (idempotent acknowledgment) does not hold of the code. Frames 0 and 1 are sent; the
  acknowledgment of 1 arrives, then the acknowledgment of 0, which slides \<^verbatim>\<open>base\<close> from
  0 to 2. The same acknowledgment of 0 arrives once more: sequence number 0 is at
  distance \<open>(0 - 2 + 7) % 7 = 5 < WINDOWSIZE\<close> from the new base, so it passes the window
  test, and \<^verbatim>\<open>acked[0]\<close> is set (and \<^verbatim>\<open>resend_count[0]\<close> reset) for a frame that has
  not been sent. The state after two applications differs from the state after one.
\<close>

theorem repeated_ack_changes_state:
  "map_sum id (\<lambda>s. (base s, next_seqnum s, acked s))
     (A_run [Submit (msg_of (CHR ''a'')), Submit (msg_of (CHR ''b'')),
             Ack (ack_of 1 1), Ack (ack_of 0 0)] A_init)
   = Inr (2, 2, [False, False, False, False, False, False])
   \<and> map_sum id (\<lambda>s. (base s, next_seqnum s, acked s))
       (A_run [Submit (msg_of (CHR ''a'')), Submit (msg_of (CHR ''b'')),
               Ack (ack_of 1 1), Ack (ack_of 0 0), Ack (ack_of 0 0)] A_init)
     = Inr (2, 2, [True, False, False, False, False, False])"
  by code_simp

text \<open>
  C5 (the timeout retransmits the frame at base) does not hold of the code. After the
  run of C1 at the sender, frames 6 (\<open>g\<close>) and 0 (\<open>h\<close>) are outstanding, \<^verbatim>\<open>base\<close> is 6, and
  slot 0 of \<^verbatim>\<open>sender_buffer\<close> holds frame 0, which overwrote frame 6. The timeout
  retransmits \<^verbatim>\<open>sender_buffer[6 % 6]\<close>: frame 0, another outstanding frame of the window,
  and charges the retry to \<^verbatim>\<open>resend_count[6]\<close>. Frame 6 cannot be retransmitted.
\<close>

theorem timeout_retransmits_other_frame:
  "map_sum id (\<lambda>s. (base s, next_seqnum s, map seqnum (sender_buffer s), resend_count s,
                     drop 6 (sent (A_calls s))))
     (A_run (map (\<lambda>c. Submit (msg_of c)) ''abcdef''
             @ [Ack (ack_of 1 0), Ack (ack_of 0 1), Ack (ack_of 1 2),
                Ack (ack_of 0 3), Ack (ack_of 1 4), Ack (ack_of 0 5)]
             @ [Submit (msg_of (CHR ''g'')), Submit (msg_of (CHR ''h'')), Timeout]) A_init)
   = Inr (6, 1, [0, 1, 2, 3, 4, 5], [0, 0, 0, 0, 0, 0, 1],
          [frame_of 6 (CHR ''g''), frame_of 0 (CHR ''h''), frame_of 0 (CHR ''h'')])"
  by code_simp

text \<open>
  C7 (the in-flight set is \<open>{base, .., next_seqnum - 1}\<close>) does not hold of the code.
  Frames 0 and 1 are sent and the timer retransmits frame 0; the receiver answers the
  three arrivals with the acknowledgments 0, 1 and 0 (the retransmitted frame 0 is inside
  its window \<open>{2, .., 0}\<close>). At the sender the second acknowledgment of 0 arrives when
  \<^verbatim>\<open>base\<close> is 2 and marks slot 0. Frames 2 to 5 are sent and acknowledged; the slide for
  the acknowledgment of 5 moves \<^verbatim>\<open>base\<close> to 6 and, finding slot \<open>6 % 6 = 0\<close> marked, on to
  0, past \<^verbatim>\<open>next_seqnum = 6\<close>. Every frame sent has been acknowledged, yet
  \<open>(next_seqnum - base) mod SEQSPACE = 6\<close> and the next submission is refused as
  window-full. The second part: one acknowledgment of 0 handed to the sender in its
  initial state moves \<^verbatim>\<open>base\<close> to 1 while \<^verbatim>\<open>next_seqnum\<close> is 0.
\<close>

theorem base_overtakes_next_seqnum:
  "map_sum id (\<lambda>r. sent (B_calls r))
     (B_run [frame_of 0 (CHR ''a''), frame_of 1 (CHR ''b''), frame_of 0 (CHR ''a''),
             frame_of 2 (CHR ''c''), frame_of 3 (CHR ''d''), frame_of 4 (CHR ''e''),
             frame_of 5 (CHR ''f'')] B_init)
   = Inr [ack_of 1 0, ack_of 0 1, ack_of 1 0, ack_of 0 2, ack_of 1 3, ack_of 0 4, ack_of 1 5]
   \<and> map_sum id (\<lambda>s. (base s, next_seqnum s, window_full s, map seqnum (sent (A_calls s))))
       (A_run [Submit (msg_of (CHR ''a'')), Submit (msg_of (CHR ''b'')), Timeout,
               Ack (ack_of 1 0), Ack (ack_of 0 1), Ack (ack_of 1 0),
               Submit (msg_of (CHR ''c'')), Submit (msg_of (CHR ''d'')),
               Submit (msg_of (CHR ''e'')), Submit (msg_of (CHR ''f'')),
               Ack (ack_of 0 2), Ack (ack_of 1 3), Ack (ack_of 0 4), Ack (ack_of 1 5),
               Submit (msg_of (CHR ''g''))] A_init)
     = Inr (0, 6, 1, [0, 1, 0, 2, 3, 4, 5])
   \<and> map_sum id (\<lambda>s. (base s, next_seqnum s, sent (A_calls s)))
       (A_run [Ack (ack_of 1 0)] A_init)
     = Inr (1, 0, [])"
  by code_simp

end
